theory Spec2Isabelle
  imports Main
begin

section \<open>Strings, errors and the Python runtime\<close>

text \<open>
  A Python \<open>str\<close> is a sequence of Unicode code points; \<open>len\<close> counts code points.
  Code points are integers here (the values of \<open>ord\<close>), and a string is a list of
  them.
\<close>

type_synonym codepoint = int
type_synonym ustring = "codepoint list"

definition ustr :: "string \<Rightarrow> ustring" where
  "ustr s = map of_char s"

datatype py_error = IndexError

type_synonym candidate = "ustring \<times> ustring"

datatype form = NFC | NFD | NFKC | NFKD

text \<open>
  The program calls into the interpreter and its standard library: \<open>str.isspace\<close>
  (which is also the class \<open>\s\<close> of \<open>re\<close>), the classes \<open>\d\<close> and \<open>\w\<close> of \<open>re\<close>
  (\<open>\w\<close> is "alphanumeric or underscore"), \<open>unicodedata.normalize\<close>,
  \<open>unicodedata.combining\<close>, and the iteration order of a \<open>set\<close> of tuples, which
  depends on the hashes of its elements. None of these tables is part of the repository;
  they are the fields of a runtime that every operation takes as its first argument.
\<close>

record runtime =
  rt_isspace :: "codepoint \<Rightarrow> bool"
  rt_isdecimal :: "codepoint \<Rightarrow> bool"
  rt_isalnum :: "codepoint \<Rightarrow> bool"
  rt_normalize :: "form \<Rightarrow> ustring \<Rightarrow> ustring"
  rt_combining :: "codepoint \<Rightarrow> int"
  rt_set_iter :: "candidate list \<Rightarrow> candidate list"

text \<open>
  \<open>set(candidates)\<close> holds every element of the list once; the order in which it is
  iterated is any order.
\<close>

definition set_iter_ok :: "runtime \<Rightarrow> bool" where
  "set_iter_ok E \<longleftrightarrow> (\<forall>xs. distinct (rt_set_iter E xs) \<and> set (rt_set_iter E xs) = set xs)"

subsection \<open>Indexing, slicing, \<open>strip\<close> and \<open>endswith\<close>\<close>

text \<open>\<open>s[-1]\<close> and \<open>s[0]\<close> raise IndexError on the empty string.\<close>

definition py_last :: "ustring \<Rightarrow> py_error + codepoint" where
  "py_last s = (if s = [] then Inl IndexError else Inr (last s))"

definition py_first :: "ustring \<Rightarrow> py_error + codepoint" where
  "py_first s = (case s of [] \<Rightarrow> Inl IndexError | c # _ \<Rightarrow> Inr c)"

text \<open>
  \<open>s[:i]\<close> and \<open>s[i:]\<close>: a negative bound counts from the end, and bounds are clamped
  to the string.
\<close>

definition py_bound :: "ustring \<Rightarrow> int \<Rightarrow> nat" where
  "py_bound s i = nat (if i < 0 then int (length s) + i else i)"

definition slice_to :: "ustring \<Rightarrow> int \<Rightarrow> ustring" where
  "slice_to s i = take (py_bound s i) s"

definition slice_from :: "ustring \<Rightarrow> int \<Rightarrow> ustring" where
  "slice_from s i = drop (py_bound s i) s"

definition strip :: "runtime \<Rightarrow> ustring \<Rightarrow> ustring" where
  "strip E s = rev (dropWhile (rt_isspace E) (rev (dropWhile (rt_isspace E) s)))"

definition endswith :: "ustring \<Rightarrow> ustring \<Rightarrow> bool" where
  "endswith s suf \<longleftrightarrow> length suf \<le> length s \<and> drop (length s - length suf) s = suf"

text \<open>Python's \<open>and\<close> and \<open>or\<close> evaluate the right operand only when needed.\<close>

definition py_and :: "py_error + bool \<Rightarrow> py_error + bool \<Rightarrow> py_error + bool" where
  "py_and a b = (case a of Inl e \<Rightarrow> Inl e | Inr x \<Rightarrow> if x then b else Inr False)"

definition py_or :: "py_error + bool \<Rightarrow> py_error + bool \<Rightarrow> py_error + bool" where
  "py_or a b = (case a of Inl e \<Rightarrow> Inl e | Inr x \<Rightarrow> if x then Inr True else b)"

section \<open>The sandhi candidate generator\<close>

definition VOWELS :: "codepoint set" where
  "VOWELS = set [97, 101, 105, 111, 117, 0x101, 0x12B, 0x16B, 0x1E5B, 0x1E5D, 0x1E37,
                 65, 69, 73, 79, 85, 0x100, 0x12A, 0x16A, 0x1E5A, 0x1E5C, 0x1E36]"

definition in_VOWELS :: "py_error + codepoint \<Rightarrow> py_error + bool" where
  "in_VOWELS c = (case c of Inl e \<Rightarrow> Inl e | Inr x \<Rightarrow> Inr (x \<in> VOWELS))"

definition not_in_VOWELS :: "py_error + codepoint \<Rightarrow> py_error + bool" where
  "not_in_VOWELS c = (case c of Inl e \<Rightarrow> Inl e | Inr x \<Rightarrow> Inr (x \<notin> VOWELS))"

text \<open>The conditions of the three \<open>if\<close> statements in the loop body, in source order.\<close>

definition heuristic1 :: "ustring \<Rightarrow> ustring \<Rightarrow> py_error + bool" where
  "heuristic1 L R = py_and (in_VOWELS (py_last L)) (in_VOWELS (py_first R))"

definition heuristic2 :: "ustring \<Rightarrow> ustring \<Rightarrow> py_error + bool" where
  "heuristic2 L R = py_and (not_in_VOWELS (py_last L)) (in_VOWELS (py_first R))"

definition heuristic3 :: "ustring \<Rightarrow> ustring \<Rightarrow> py_error + bool" where
  "heuristic3 L R =
     py_or (Inr (endswith L [0x1E25]))
           (py_and (Inr (endswith L [104])) (in_VOWELS (py_first R)))"

datatype heuristic = H1 | H2 | H3

text \<open>
  One pass through the loop body for the fragments \<open>L\<close> and \<open>R\<close>: the heuristic whose
  \<open>if\<close> appends the candidate, \<open>None\<close> when none does, or the exception raised.
\<close>

definition fired :: "ustring \<Rightarrow> ustring \<Rightarrow> py_error + heuristic option" where
  "fired L R =
     (case heuristic1 L R of Inl e \<Rightarrow> Inl e
      | Inr True \<Rightarrow> Inr (Some H1)
      | Inr False \<Rightarrow>
     (case heuristic2 L R of Inl e \<Rightarrow> Inl e
      | Inr True \<Rightarrow> Inr (Some H2)
      | Inr False \<Rightarrow>
     (case heuristic3 L R of Inl e \<Rightarrow> Inl e
      | Inr True \<Rightarrow> Inr (Some H3)
      | Inr False \<Rightarrow> Inr None)))"

text \<open>The \<open>for\<close> loop over the split indices, with the list \<open>candidates\<close> as state.\<close>

fun splits_loop :: "ustring \<Rightarrow> int list \<Rightarrow> candidate list \<Rightarrow> py_error + candidate list" where
  "splits_loop token [] candidates = Inr candidates"
| "splits_loop token (i # rest) candidates =
     (let L = slice_to token i; R = slice_from token i in
      case fired L R of
        Inl e \<Rightarrow> Inl e
      | Inr None \<Rightarrow> splits_loop token rest candidates
      | Inr (Some h) \<Rightarrow> splits_loop token rest (candidates @ [(L, R)]))"

definition score :: "candidate \<Rightarrow> int" where
  "score split = (case split of (L, R) \<Rightarrow> \<bar>int (length L) - int (length R)\<bar>)"

definition simple_sandhi_splits :: "runtime \<Rightarrow> ustring \<Rightarrow> int \<Rightarrow> py_error + candidate list" where
  "simple_sandhi_splits E token0 min_part_len =
     (let token = strip E token0;
          n = int (length token)
      in if n < min_part_len * 2 then Inr []
         else (case splits_loop token [min_part_len .. n - min_part_len] [] of
                 Inl e \<Rightarrow> Inl e
               | Inr candidates \<Rightarrow> Inr (sort_key score (rt_set_iter E candidates))))"

section \<open>Regular expressions\<close>

text \<open>
  The three patterns of the module use character classes, concatenation, the greedy
  \<open>*\<close> and the greedy \<open>+\<close>. \<open>matches r s\<close> lists, in the order in which the
  backtracking matcher of \<open>re\<close> tries them, the remainders of \<open>s\<close> after each way
  of matching \<open>r\<close> at the start of \<open>s\<close>. A greedy repetition tries one more round of
  its body before it tries to stop, and does not repeat a round that consumed nothing.
\<close>

datatype regex = Class "codepoint \<Rightarrow> bool" | Seq regex regex | Star regex

definition Plus :: "regex \<Rightarrow> regex" where
  "Plus r = Seq r (Star r)"

function matches :: "regex \<Rightarrow> ustring \<Rightarrow> ustring list" where
  "matches (Class p) s = (case s of [] \<Rightarrow> [] | c # cs \<Rightarrow> if p c then [cs] else [])"
| "matches (Seq r1 r2) s = concat (map (matches r2) (matches r1 s))"
| "matches (Star r) s =
     concat (map (\<lambda>s'. if length s' < length s then matches (Star r) s' else [])
                 (matches r s)) @ [s]"
  by pat_completeness auto
termination
  by (relation "measures [\<lambda>(r, s). size r, \<lambda>(r, s). length s]") auto

declare matches.simps [simp del]

text \<open>
  \<open>pattern.match(text, i)\<close>: the first way of matching at position \<open>i\<close>, as the
  position \<open>m.end()\<close> where it stops; \<open>m.group(0)\<close> is \<open>text[i:m.end()]\<close>.
  \<open>re.fullmatch\<close> succeeds when some way of matching consumes the whole string.
\<close>

definition re_match :: "regex \<Rightarrow> ustring \<Rightarrow> nat \<Rightarrow> nat option" where
  "re_match r text i =
     (case matches r (drop i text) of [] \<Rightarrow> None
      | rest # _ \<Rightarrow> Some (length text - length rest))"

definition substring :: "ustring \<Rightarrow> nat \<Rightarrow> nat \<Rightarrow> ustring" where
  "substring text i j = take (j - i) (drop i text)"

definition re_fullmatch :: "regex \<Rightarrow> ustring \<Rightarrow> bool" where
  "re_fullmatch r s \<longleftrightarrow> [] \<in> set (matches r s)"

fun nullable :: "regex \<Rightarrow> bool" where
  "nullable (Class p) = False"
| "nullable (Seq r1 r2) = (nullable r1 \<and> nullable r2)"
| "nullable (Star r) = True"

subsection \<open>The patterns of the module\<close>

definition extended_latin :: "codepoint \<Rightarrow> bool" where
  "extended_latin c \<longleftrightarrow> (0x100 \<le> c \<and> c \<le> 0x24F) \<or> (0x1E00 \<le> c \<and> c \<le> 0x1EFF)"

definition letter :: "codepoint \<Rightarrow> bool" where
  "letter c \<longleftrightarrow> (65 \<le> c \<and> c \<le> 90) \<or> (97 \<le> c \<and> c \<le> 122) \<or> extended_latin c"

definition WORD_RE :: regex where
  "WORD_RE = Seq (Plus (Class letter))
                 (Star (Seq (Class (\<lambda>c. c = 45 \<or> c = 39)) (Plus (Class letter))))"

definition NUMBER_RE :: "runtime \<Rightarrow> regex" where
  "NUMBER_RE E = Seq (Plus (Class (rt_isdecimal E)))
                     (Star (Seq (Class (\<lambda>c. c = 46 \<or> c = 44)) (Plus (Class (rt_isdecimal E)))))"

definition word_char :: "runtime \<Rightarrow> codepoint \<Rightarrow> bool" where
  "word_char E c \<longleftrightarrow> rt_isalnum E c \<or> c = 95"

definition PUNCT_RE :: "runtime \<Rightarrow> regex" where
  "PUNCT_RE E = Class (\<lambda>c. \<not> (rt_isspace E c \<or> word_char E c \<or> extended_latin c))"

section \<open>Normalization and diacritics\<close>

definition normalize_text :: "runtime \<Rightarrow> ustring \<Rightarrow> form \<Rightarrow> ustring" where
  "normalize_text E text form = rt_normalize E form text"

definition strip_diacritics :: "runtime \<Rightarrow> ustring \<Rightarrow> ustring" where
  "strip_diacritics E text =
     (let nfkd = rt_normalize E NFKD text;
          stripped = concat (map (\<lambda>ch. [ch]) (filter (\<lambda>ch. rt_combining E ch = 0) nfkd))
      in rt_normalize E NFC stripped)"

definition mapping :: "(codepoint \<times> ustring) list" where
  "mapping =
     [(0x101, [97]), (0x12B, [105]), (0x16B, [117]), (0x1E5B, [114]), (0x1E5D, [114]),
      (0x1E37, [108]), (0x1E39, [108]),
      (0x1E45, [110]), (0xF1, [110]), (0x1E47, [110]), (0x1E63, [115]), (0x15B, [115]),
      (0x1E25, [104]),
      (0x1E0D, [100]), (0x1E6D, [116]), (0x1E37, [108]), (0x1E41, [109]),
      (0x100, [65]), (0x12A, [73]), (0x16A, [85]), (0x1E5A, [82]), (0x1E5C, [82]),
      (0x1E44, [78]), (0xD1, [78]), (0x1E46, [78]), (0x1E62, [83]), (0x15A, [83]),
      (0x1E24, [72]),
      (0x1E0C, [68]), (0x1E6C, [84]), (0x1E36, [76]), (0x1E40, [77])]"

definition iast_to_simple_ascii :: "ustring \<Rightarrow> ustring" where
  "iast_to_simple_ascii iast =
     concat (map (\<lambda>ch. case map_of mapping ch of Some v \<Rightarrow> v | None \<Rightarrow> [ch]) iast)"

section \<open>The scanner\<close>

text \<open>
  The patterns are globals of the module; the scanner takes them as a record, so that
  the same loop can be run with the patterns of the second module.
\<close>

record patterns =
  number_re :: regex
  word_re :: regex
  punct_re :: regex

definition module_patterns :: "runtime \<Rightarrow> patterns" where
  "module_patterns E = \<lparr>number_re = NUMBER_RE E, word_re = WORD_RE, punct_re = PUNCT_RE E\<rparr>"

text \<open>
  What one pass through the body of the \<open>while\<close> loop consumes: a whitespace code point
  that is skipped, or a token that is appended.
\<close>

datatype piece = Skipped codepoint | Emitted ustring

text \<open>
  The body of the loop at cursor \<open>i\<close> (the loop runs it only when \<open>i < len(text)\<close>):
  the new cursor and the piece consumed.
\<close>

definition scan_step :: "runtime \<Rightarrow> patterns \<Rightarrow> ustring \<Rightarrow> nat \<Rightarrow> nat \<times> piece" where
  "scan_step E P text i =
     (if rt_isspace E (text ! i) then (i + 1, Skipped (text ! i))
      else case re_match (number_re P) text i of
        Some e \<Rightarrow> (e, Emitted (substring text i e))
      | None \<Rightarrow>
     (case re_match (word_re P) text i of
        Some e \<Rightarrow> (e, Emitted (substring text i e))
      | None \<Rightarrow>
     (case re_match (punct_re P) text i of
        Some e \<Rightarrow> (e, Emitted (substring text i e))
      | None \<Rightarrow> (i + 1, Emitted [text ! i]))))"

text \<open>
  The \<open>while\<close> loop, with the cursor and the list \<open>tokens\<close> as state. Nothing in the
  loop itself bounds the number of passes, so its result is an option: \<open>None\<close> stands
  for a loop that never ends.
\<close>

partial_function (option) scan_loop ::
  "runtime \<Rightarrow> patterns \<Rightarrow> ustring \<Rightarrow> nat \<Rightarrow> ustring list \<Rightarrow> ustring list option" where
  "scan_loop E P text i tokens =
     (if i < length text then
        (case scan_step E P text i of
           (i', Skipped c) \<Rightarrow> scan_loop E P text i' tokens
         | (i', Emitted t) \<Rightarrow> scan_loop E P text i' (tokens @ [t]))
      else Some tokens)"

declare scan_loop.simps [code]

text \<open>
  The same loop, recording every piece it consumes (skipped whitespace included)
  instead of the tokens only.
\<close>

partial_function (option) scan_trace ::
  "runtime \<Rightarrow> patterns \<Rightarrow> ustring \<Rightarrow> nat \<Rightarrow> piece list \<Rightarrow> piece list option" where
  "scan_trace E P text i trace =
     (if i < length text then
        (case scan_step E P text i of
           (i', p) \<Rightarrow> scan_trace E P text i' (trace @ [p]))
      else Some trace)"

declare scan_trace.simps [code]

fun piece_text :: "piece \<Rightarrow> ustring" where
  "piece_text (Skipped c) = [c]"
| "piece_text (Emitted t) = t"

fun emitted :: "piece list \<Rightarrow> ustring list" where
  "emitted [] = []"
| "emitted (Skipped c # ps) = emitted ps"
| "emitted (Emitted t # ps) = t # emitted ps"

text \<open>The text that the scanner runs on, after the optional steps.\<close>

definition prepare :: "runtime \<Rightarrow> ustring \<Rightarrow> bool \<Rightarrow> bool \<Rightarrow> bool \<Rightarrow> ustring" where
  "prepare E text normalize_flag strip_diac iast_ascii =
     (let text1 = (if normalize_flag then normalize_text E text NFC else text);
          text2 = (if strip_diac then strip_diacritics E text1 else text1);
          text3 = (if iast_ascii then iast_to_simple_ascii text2 else text2)
      in text3)"

definition basic_tokenize ::
  "runtime \<Rightarrow> ustring \<Rightarrow> bool \<Rightarrow> bool \<Rightarrow> bool \<Rightarrow> ustring list option" where
  "basic_tokenize E text normalize_flag strip_diac iast_ascii =
     scan_loop E (module_patterns E) (prepare E text normalize_flag strip_diac iast_ascii) 0 []"

section \<open>The pipeline\<close>

text \<open>The \<open>for\<close> loop over the tokens, with the list \<open>expanded\<close> as state.\<close>

fun expand_loop :: "runtime \<Rightarrow> ustring list \<Rightarrow> ustring list \<Rightarrow> py_error + ustring list" where
  "expand_loop E [] expanded = Inr expanded"
| "expand_loop E (t # toks) expanded =
     (if re_fullmatch WORD_RE t then
        (case simple_sandhi_splits E t 2 of
           Inl e \<Rightarrow> Inl e
         | Inr [] \<Rightarrow> expand_loop E toks (expanded @ [t])
         | Inr ((left, right) # _) \<Rightarrow> expand_loop E toks (expanded @ [left, right]))
      else expand_loop E toks (expanded @ [t]))"

definition pipeline_tokenize ::
  "runtime \<Rightarrow> ustring \<Rightarrow> bool \<Rightarrow> bool \<Rightarrow> bool \<Rightarrow> bool \<Rightarrow> (py_error + ustring list) option" where
  "pipeline_tokenize E text normalize_flag strip_diacritics_flag iast_ascii_flag sandhi_split =
     (case basic_tokenize E text normalize_flag strip_diacritics_flag iast_ascii_flag of
        None \<Rightarrow> None
      | Some toks \<Rightarrow>
          if \<not> sandhi_split then Some (Inr toks)
          else Some (expand_loop E toks []))"

section \<open>The second variant of the tokenizer\<close>

text \<open>
  The module \<open>.venv/Sanskrit_tokeniser.py\<close> has its own helpers, patterns and scanner.
  Names that the first module also uses carry the suffix \<open>_venv\<close>. Its \<open>while\<close> loop
  is, statement for statement, the loop of \<open>basic_tokenize\<close> over its own three
  patterns, so it is \<open>scan_loop\<close> with those patterns.
\<close>

definition normalize_text_venv :: "runtime \<Rightarrow> ustring \<Rightarrow> ustring" where
  "normalize_text_venv E text = rt_normalize E NFC text"

definition strip_diacritics_venv :: "runtime \<Rightarrow> ustring \<Rightarrow> ustring" where
  "strip_diacritics_venv E text =
     (let nfkd = rt_normalize E NFKD text
      in concat (map (\<lambda>ch. [ch]) (filter (\<lambda>ch. rt_combining E ch = 0) nfkd)))"

definition mapping_venv :: "(codepoint \<times> ustring) list" where
  "mapping_venv =
     [(0x101, [97]), (0x12B, [105]), (0x16B, [117]), (0x1E5B, [114]), (0x1E5D, [114]),
      (0x1E37, [108]),
      (0x1E45, [110]), (0xF1, [110]), (0x1E47, [110]), (0x1E63, [115]), (0x15B, [115]),
      (0x1E25, [104]), (0x1E41, [109]),
      (0x100, [65]), (0x12A, [73]), (0x16A, [85]), (0x1E5A, [82]), (0x1E5C, [82]),
      (0x1E36, [76]),
      (0x1E44, [78]), (0xD1, [78]), (0x1E46, [78]), (0x1E62, [83]), (0x15A, [83]),
      (0x1E24, [72]), (0x1E40, [77])]"

definition iast_to_ascii :: "ustring \<Rightarrow> ustring" where
  "iast_to_ascii text =
     concat (map (\<lambda>ch. case map_of mapping_venv ch of Some v \<Rightarrow> v | None \<Rightarrow> [ch]) text)"






text \<open>The text that the second scanner runs on; it is always normalized.\<close>

definition prepare_venv :: "runtime \<Rightarrow> ustring \<Rightarrow> bool \<Rightarrow> bool \<Rightarrow> ustring" where
  "prepare_venv E text strip_diac ascii_map =
     (let text1 = normalize_text_venv E text;
          text2 = (if strip_diac then strip_diacritics_venv E text1 else text1);
          text3 = (if ascii_map then iast_to_ascii text2 else text2)
      in text3)"


section \<open>Reference definitions\<close>

text \<open>
  The decision of the loop body as one condition on the two fragments: the right
  fragment starts with a vowel, or the left fragment ends with the visarga.
\<close>

definition starts_with_vowel :: "ustring \<Rightarrow> bool" where
  "starts_with_vowel R = (case R of [] \<Rightarrow> False | c # _ \<Rightarrow> c \<in> VOWELS)"

definition ends_with_visarga :: "ustring \<Rightarrow> bool" where
  "ends_with_visarga L \<longleftrightarrow> L \<noteq> [] \<and> last L = 0x1E25"

text \<open>
  Diacritic stripping as a three-stage reference, with the decomposition form as a
  parameter: decompose, remove every code point classified as a combining mark,
  compose. The classification is the one the modules use: \<open>unicodedata.combining\<close>
  returns a non-zero class.
\<close>

definition combining_mark :: "runtime \<Rightarrow> codepoint \<Rightarrow> bool" where
  "combining_mark E ch \<longleftrightarrow> rt_combining E ch \<noteq> 0"

definition remove_marks :: "runtime \<Rightarrow> ustring \<Rightarrow> ustring" where
  "remove_marks E s = filter (\<lambda>ch. \<not> combining_mark E ch) s"

definition strip_reference :: "form \<Rightarrow> runtime \<Rightarrow> ustring \<Rightarrow> ustring" where
  "strip_reference decomposition E text =
     rt_normalize E NFC (remove_marks E (rt_normalize E decomposition text))"

text \<open>
  What the pipeline does with one token when sandhi splitting is on: a token that fully
  matches the word pattern and has a candidate becomes the two fragments of its first
  candidate, any other token stays.
\<close>

definition candidates_of :: "runtime \<Rightarrow> ustring \<Rightarrow> candidate list" where
  "candidates_of E t = (case simple_sandhi_splits E t 2 of Inl e \<Rightarrow> [] | Inr cs \<Rightarrow> cs)"

definition expand_token :: "runtime \<Rightarrow> ustring \<Rightarrow> ustring list" where
  "expand_token E t =
     (if re_fullmatch WORD_RE t \<and> candidates_of E t \<noteq> []
      then [fst (hd (candidates_of E t)), snd (hd (candidates_of E t))]
      else [t])"





section \<open>A small runtime\<close>

text \<open>
  A concrete runtime on which the definitions can be evaluated. Whitespace is the
  table of \<open>str.isspace\<close>; decimal digits and alphanumerics are those of Basic Latin
  together with the letters of the extended Latin ranges; normalization knows the
  canonical decompositions of the letters of \<open>mapping\<close> and of the Hangul syllable
  U+AC00 and the compatibility decomposition of the ligature U+FB01, with the combining
  classes of the five marks involved; a set is iterated in the order of first insertion.
\<close>

definition py_isspace :: "codepoint \<Rightarrow> bool" where
  "py_isspace c \<longleftrightarrow>
     (0x09 \<le> c \<and> c \<le> 0x0D) \<or> (0x1C \<le> c \<and> c \<le> 0x20) \<or> c = 0x85 \<or> c = 0xA0 \<or>
     c = 0x1680 \<or> (0x2000 \<le> c \<and> c \<le> 0x200A) \<or> c = 0x2028 \<or> c = 0x2029 \<or>
     c = 0x202F \<or> c = 0x205F \<or> c = 0x3000"

definition latin_isdecimal :: "codepoint \<Rightarrow> bool" where
  "latin_isdecimal c \<longleftrightarrow> 48 \<le> c \<and> c \<le> 57"

definition latin_isalnum :: "codepoint \<Rightarrow> bool" where
  "latin_isalnum c \<longleftrightarrow> latin_isdecimal c \<or> letter c"

definition canonical_table :: "(codepoint \<times> ustring) list" where
  "canonical_table =
     [(0x101, [97, 0x304]), (0x12B, [105, 0x304]), (0x16B, [117, 0x304]),
      (0x1E5B, [114, 0x323]), (0x1E5D, [0x1E5B, 0x304]),
      (0x1E37, [108, 0x323]), (0x1E39, [0x1E37, 0x304]),
      (0x1E45, [110, 0x307]), (0xF1, [110, 0x303]), (0x1E47, [110, 0x323]),
      (0x1E63, [115, 0x323]), (0x15B, [115, 0x301]), (0x1E25, [104, 0x323]),
      (0x1E0D, [100, 0x323]), (0x1E6D, [116, 0x323]), (0x1E41, [109, 0x307]),
      (0x100, [65, 0x304]), (0x12A, [73, 0x304]), (0x16A, [85, 0x304]),
      (0x1E5A, [82, 0x323]), (0x1E5C, [0x1E5A, 0x304]),
      (0x1E36, [76, 0x323]),
      (0x1E44, [78, 0x307]), (0xD1, [78, 0x303]), (0x1E46, [78, 0x323]),
      (0x1E62, [83, 0x323]), (0x15A, [83, 0x301]), (0x1E24, [72, 0x323]),
      (0x1E0C, [68, 0x323]), (0x1E6C, [84, 0x323]), (0x1E40, [77, 0x307]),
      (0xAC00, [0x1100, 0x1161])]"

definition compatibility_table :: "(codepoint \<times> ustring) list" where
  "compatibility_table = [(0xFB01, [102, 105])]"

definition decompose :: "(codepoint \<times> ustring) list \<Rightarrow> ustring \<Rightarrow> ustring" where
  "decompose table s = concat (map (\<lambda>c. case map_of table c of Some d \<Rightarrow> d | None \<Rightarrow> [c]) s)"

fun compose :: "ustring \<Rightarrow> ustring \<Rightarrow> ustring" where
  "compose done [] = done"
| "compose done (c # cs) =
     (if done = [] then compose [c] cs
      else case find (\<lambda>(x, d). d = [last done, c]) canonical_table of
             Some (x, d) \<Rightarrow> compose (butlast done @ [x]) cs
           | None \<Rightarrow> compose (done @ [c]) cs)"

definition small_normalize :: "form \<Rightarrow> ustring \<Rightarrow> ustring" where
  "small_normalize f s =
     (case f of
        NFD \<Rightarrow> decompose canonical_table (decompose canonical_table s)
      | NFKD \<Rightarrow> decompose (canonical_table @ compatibility_table)
                 (decompose (canonical_table @ compatibility_table) s)
      | NFC \<Rightarrow> compose [] (decompose canonical_table (decompose canonical_table s))
      | NFKC \<Rightarrow> compose [] (decompose (canonical_table @ compatibility_table)
                   (decompose (canonical_table @ compatibility_table) s)))"

definition small_combining :: "codepoint \<Rightarrow> int" where
  "small_combining c =
     (if c = 0x323 then 220
      else if c = 0x301 \<or> c = 0x303 \<or> c = 0x304 \<or> c = 0x307 then 230
      else 0)"

definition small_runtime :: runtime where
  "small_runtime =
     \<lparr>rt_isspace = py_isspace, rt_isdecimal = latin_isdecimal, rt_isalnum = latin_isalnum,
      rt_normalize = small_normalize, rt_combining = small_combining,
      rt_set_iter = remdups\<rparr>"

text \<open>The same runtime, with sets iterated in the opposite order.\<close>

definition reversed_runtime :: runtime where
  "reversed_runtime = small_runtime\<lparr>rt_set_iter := (\<lambda>xs. rev (remdups xs))\<rparr>"

section \<open>Auxiliary definitions\<close>

text \<open>The pair of fragments at a split index, and the condition under which it is kept.\<close>

definition split_at :: "ustring \<Rightarrow> int \<Rightarrow> candidate" where
  "split_at token i = (slice_to token i, slice_from token i)"

definition is_candidate :: "ustring \<Rightarrow> int \<Rightarrow> bool" where
  "is_candidate token i \<longleftrightarrow>
     starts_with_vowel (slice_from token i) \<or> ends_with_visarga (slice_to token i)"


text \<open>The candidates in split-index order.\<close>
definition collected :: "ustring \<Rightarrow> int \<Rightarrow> candidate list" where
  "collected token m =
     map (split_at token) (filter (is_candidate token) [m .. int (length token) - m])"


text \<open>No pattern of the record matches the empty string.\<close>

definition nonnull :: "patterns \<Rightarrow> bool" where
  "nonnull P \<longleftrightarrow> \<not> nullable (number_re P) \<and> \<not> nullable (word_re P) \<and> \<not> nullable (punct_re P)"

section \<open>Properties of the sandhi candidate generator\<close>


lemma endswith_single: "endswith L [c] \<longleftrightarrow> L \<noteq> [] \<and> last L = c"
proof (cases L rule: rev_cases)
  case Nil
  then show ?thesis by (simp add: endswith_def)
next
  case (snoc ys y)
  then show ?thesis by (auto simp: endswith_def)
qed

lemma fired_empty_left: "fired [] R = Inl IndexError"
  by (simp add: fired_def heuristic1_def py_and_def in_VOWELS_def py_last_def)

lemma fired_empty_right: "fired L [] = Inl IndexError"
  by (simp add: fired_def heuristic1_def heuristic2_def py_and_def in_VOWELS_def
      not_in_VOWELS_def py_last_def py_first_def)

lemma fired_nonempty:
  assumes "L \<noteq> []" and "R \<noteq> []"
  shows "fired L R =
    Inr (if hd R \<in> VOWELS then (if last L \<in> VOWELS then Some H1 else Some H2)
         else if last L = 0x1E25 then Some H3 else None)"
proof -
  obtain r rs where R: "R = r # rs" using assms(2) by (cases R) auto
  show ?thesis
    using assms(1)
    by (simp add: R fired_def heuristic1_def heuristic2_def heuristic3_def py_and_def py_or_def
        in_VOWELS_def not_in_VOWELS_def py_last_def py_first_def endswith_single)
qed

lemma fired_candidate:
  assumes "L \<noteq> []" and "R \<noteq> []"
  shows "(\<exists>h. fired L R = Inr (Some h)) \<longleftrightarrow> starts_with_vowel R \<or> ends_with_visarga L"
    and "fired L R = Inr None \<longleftrightarrow> \<not> (starts_with_vowel R \<or> ends_with_visarga L)"
  using assms
  by (cases R; simp add: fired_nonempty starts_with_vowel_def ends_with_visarga_def)+

lemma slices_inner:
  assumes "0 < i" and "i < int (length token)"
  shows "slice_to token i = take (nat i) token" and "slice_from token i = drop (nat i) token"
    and "slice_to token i \<noteq> []" and "slice_from token i \<noteq> []"
  using assms by (auto simp: slice_to_def slice_from_def py_bound_def)

lemma splits_loop_inner:
  assumes "\<forall>i\<in>set idx. 0 < i \<and> i < int (length token)"
  shows "splits_loop token idx acc =
         Inr (acc @ map (split_at token) (filter (is_candidate token) idx))"
  using assms
proof (induction idx arbitrary: acc)
  case Nil
  then show ?case by simp
next
  case (Cons i idx)
  then have i: "0 < i" "i < int (length token)" by auto
  have ne: "slice_to token i \<noteq> []" "slice_from token i \<noteq> []"
    using slices_inner[OF i] by auto
  have IH: "\<And>acc. splits_loop token idx acc =
         Inr (acc @ map (split_at token) (filter (is_candidate token) idx))"
    using Cons by auto
  show ?case
  proof (cases "is_candidate token i")
    case True
    then obtain h where "fired (slice_to token i) (slice_from token i) = Inr (Some h)"
      using fired_candidate(1)[OF ne] by (auto simp: is_candidate_def)
    then show ?thesis using True by (simp add: IH split_at_def)
  next
    case False
    then have "fired (slice_to token i) (slice_from token i) = Inr None"
      using fired_candidate(2)[OF ne] by (auto simp: is_candidate_def)
    then show ?thesis using False by (simp add: IH)
  qed
qed

lemma sandhi_short:
  "int (length (strip E t)) < m * 2 \<Longrightarrow> simple_sandhi_splits E t m = Inr []"
  by (simp add: simple_sandhi_splits_def Let_def)

lemma sandhi_long:
  assumes "1 \<le> m" and "\<not> int (length (strip E t)) < m * 2"
  shows "simple_sandhi_splits E t m =
         Inr (sort_key score (rt_set_iter E (collected (strip E t) m)))"
proof -
  have "\<forall>i\<in>set [m .. int (length (strip E t)) - m]. 0 < i \<and> i < int (length (strip E t))"
    using assms(1) by auto
  from splits_loop_inner[OF this, of "[]"] show ?thesis
    using assms(2) by (simp add: simple_sandhi_splits_def Let_def collected_def)
qed

lemma sandhi_total:
  assumes "1 \<le> m"
  shows "\<exists>cs. simple_sandhi_splits E t m = Inr cs"
  using sandhi_short[of E t m] sandhi_long[OF assms, of E t] by (cases "int (length (strip E t)) < m * 2") auto

lemma strip_length: "length (strip E t) \<le> length t"
proof -
  have "length (strip E t) = length (dropWhile (rt_isspace E) (rev (dropWhile (rt_isspace E) t)))"
    by (simp add: strip_def)
  also have "\<dots> \<le> length (rev (dropWhile (rt_isspace E) t))"
    by (rule length_dropWhile_le)
  also have "\<dots> \<le> length t"
    by (simp add: length_dropWhile_le)
  finally show ?thesis .
qed

lemma collected_props:
  assumes "1 \<le> m" and "(L, R) \<in> set (collected token m)"
  shows "L @ R = token" and "m \<le> int (length L)" and "m \<le> int (length R)"
    and "L \<noteq> []" and "R \<noteq> []"
proof -
  from assms(2) obtain i where i: "m \<le> i" "i \<le> int (length token) - m"
    and LR: "(L, R) = split_at token i"
    by (auto simp: collected_def)
  have b: "0 < i" "i < int (length token)" using i assms(1) by auto
  have L: "L = take (nat i) token" and R: "R = drop (nat i) token"
    using LR slices_inner(1,2)[OF b] by (auto simp: split_at_def)
  show "L @ R = token" by (simp add: L R)
  show "m \<le> int (length L)" using i b by (simp add: L)
  show "m \<le> int (length R)" using i b by (simp add: R)
  show "L \<noteq> []" using b by (auto simp: L)
  show "R \<noteq> []" using b by (auto simp: R)
qed


lemma collected_distinct_idx:
  assumes "1 \<le> m" and "m \<le> i" and "i \<le> int (length token) - m"
  shows "split_at token i \<in> set (collected token m) \<longleftrightarrow> is_candidate token i"
proof
  assume "is_candidate token i"
  then show "split_at token i \<in> set (collected token m)"
    using assms by (auto simp: collected_def)
next
  assume "split_at token i \<in> set (collected token m)"
  then obtain j where j: "m \<le> j" "j \<le> int (length token) - m" "is_candidate token j"
    and eq: "split_at token i = split_at token j"
    by (auto simp: collected_def)
  have bi: "0 < i" "i < int (length token)" using assms by auto
  have bj: "0 < j" "j < int (length token)" using j assms(1) by auto
  have "take (nat i) token = take (nat j) token"
    using eq slices_inner(1)[OF bi] slices_inner(1)[OF bj] by (simp add: split_at_def)
  then have "length (take (nat i) token) = length (take (nat j) token)" by simp
  then have "i = j" using bi bj by simp
  then show "is_candidate token i" using j by simp
qed

lemma set_iter_ok_small: "set_iter_ok small_runtime"
  by (simp add: set_iter_ok_def small_runtime_def)

lemma set_iter_ok_reversed: "set_iter_ok reversed_runtime"
  by (simp add: set_iter_ok_def reversed_runtime_def small_runtime_def)

text \<open>
  Claim C1. The generator is meant to return a (possibly empty) sequence for every token
  and every non-negative \<open>min_part_len\<close>, in particular for \<open>min_part_len = 0\<close>.
  The code does not: with \<open>min_part_len = 0\<close> the guard \<open>n < 0\<close> never holds, the
  first split index is 0, the left fragment is empty and \<open>L[-1]\<close> raises IndexError,
  whatever the token is.
\<close>

theorem sandhi_raises_at_zero: "simple_sandhi_splits E t 0 = Inl IndexError"
proof -
  have "[0 .. int (length (strip E t))] = 0 # [1 .. int (length (strip E t))]"
    by (simp add: upto_rec1)
  then show ?thesis
    by (simp add: simple_sandhi_splits_def Let_def slice_to_def py_bound_def fired_empty_left)
qed

text \<open>
  Claim C2, as amended. For every token and every \<open>min_part_len \<ge> 1\<close> the generator
  returns a sequence, and every candidate \<open>(L, R)\<close> in it satisfies
  \<open>L + R = token.strip()\<close> (the token without its leading and trailing whitespace, not
  the token itself), \<open>len(L) \<ge> min_part_len\<close>, \<open>len(R) \<ge> min_part_len\<close>, with both
  fragments non-empty; the sequence is empty whenever \<open>len(token) < 2 * min_part_len\<close>.
\<close>

theorem split_validity:
  assumes "1 \<le> m" and "set_iter_ok E"
  shows "\<exists>cs. simple_sandhi_splits E t m = Inr cs \<and>
           (\<forall>(L, R)\<in>set cs. L @ R = strip E t \<and> m \<le> int (length L) \<and> m \<le> int (length R)
                \<and> L \<noteq> [] \<and> R \<noteq> []) \<and>
           (int (length t) < 2 * m \<longrightarrow> cs = [])"
proof (cases "int (length (strip E t)) < m * 2")
  case True
  then show ?thesis using sandhi_short[OF True] by simp
next
  case False
  let ?cs = "sort_key score (rt_set_iter E (collected (strip E t) m))"
  have set: "set ?cs = set (collected (strip E t) m)"
    using assms(2) by (simp add: set_iter_ok_def)
  have long: "\<not> int (length t) < 2 * m"
    using False strip_length[of E t] by simp
  have "\<forall>(L, R)\<in>set ?cs. L @ R = strip E t \<and> m \<le> int (length L) \<and> m \<le> int (length R)
                \<and> L \<noteq> [] \<and> R \<noteq> []"
    unfolding set using collected_props[OF assms(1)] by blast
  then show ?thesis
    using sandhi_long[OF assms(1) False] long by simp
qed

theorem split_validity_witness:
  "(1::int) \<le> 2 \<and> set_iter_ok small_runtime \<and>
   (\<exists>cs. simple_sandhi_splits small_runtime (ustr ''ahamasti'') 2 = Inr cs \<and> cs \<noteq> [] \<and>
      (\<forall>(L, R)\<in>set cs. L @ R = strip small_runtime (ustr ''ahamasti'') \<and>
          2 \<le> int (length L) \<and> 2 \<le> int (length R) \<and> L \<noteq> [] \<and> R \<noteq> [])) \<and>
   int (length (ustr ''aha'')) < 2 * 2 \<and>
   simple_sandhi_splits small_runtime (ustr ''aha'') 2 = Inr []"
proof -
  have h1: "(1::int) \<le> 2" by simp
  have long: "simple_sandhi_splits small_runtime (ustr ''ahamasti'') 2 =
     Inr [(ustr ''aham'', ustr ''asti''), (ustr ''ah'', ustr ''amasti'')]"
    by code_simp
  have short: "int (length (ustr ''aha'')) < 2 * 2" by code_simp
  from split_validity[OF h1 set_iter_ok_small, of "ustr ''ahamasti''"] long
  have a: "\<exists>cs. simple_sandhi_splits small_runtime (ustr ''ahamasti'') 2 = Inr cs \<and> cs \<noteq> [] \<and>
      (\<forall>(L, R)\<in>set cs. L @ R = strip small_runtime (ustr ''ahamasti'') \<and>
          2 \<le> int (length L) \<and> 2 \<le> int (length R) \<and> L \<noteq> [] \<and> R \<noteq> [])"
    by auto
  from split_validity[OF h1 set_iter_ok_small, of "ustr ''aha''"] short
  have b: "simple_sandhi_splits small_runtime (ustr ''aha'') 2 = Inr []" by auto
  from h1 set_iter_ok_small a short b show ?thesis by blast
qed

text \<open>
  The claim as it was stated asks for \<open>L + R = token\<close>; a token with a leading blank
  has a candidate whose fragments do not add up to it.
\<close>

theorem split_validity_counterexample:
  "simple_sandhi_splits small_runtime (ustr '' aham'') 2 = Inr [(ustr ''ah'', ustr ''am'')] \<and>
   ustr ''ah'' @ ustr ''am'' \<noteq> ustr '' aham''"
  by code_simp

text \<open>
  Claim C3, as amended. The sequence returned by the generator has no repeated
  candidate and is sorted ascending by \<open>|len(L) - len(R)|\<close>; among candidates of equal
  score, the order is the one in which the intermediate set of the candidates is
  iterated (which need not follow the split index).
\<close>

theorem splits_distinct_sorted:
  assumes "set_iter_ok E" and "simple_sandhi_splits E t m = Inr cs"
  shows "distinct cs \<and> sorted (map score cs) \<and>
         (\<exists>candidates.
            splits_loop (strip E t) [m .. int (length (strip E t)) - m] [] = Inr candidates \<and>
            (\<forall>k. filter (\<lambda>c. score c = k) cs =
                 filter (\<lambda>c. score c = k) (rt_set_iter E candidates)))"
proof (cases "int (length (strip E t)) < m * 2")
  case True
  then have cs: "cs = []" using assms(2) sandhi_short[OF True] by simp
  have "[m .. int (length (strip E t)) - m] = []" using True by simp
  then have loop: "splits_loop (strip E t) [m .. int (length (strip E t)) - m] [] = Inr []"
    by simp
  have "set (rt_set_iter E []) = {}" using assms(1) by (simp add: set_iter_ok_def)
  then have "rt_set_iter E [] = []" by simp
  then show ?thesis using cs loop by simp
next
  case False
  from assms(2) False obtain cands where
    loop: "splits_loop (strip E t) [m .. int (length (strip E t)) - m] [] = Inr cands"
    and cs: "cs = sort_key score (rt_set_iter E cands)"
    by (auto simp: simple_sandhi_splits_def Let_def split: sum.splits)
  have "distinct cs \<and> sorted (map score cs)"
    using assms(1) by (simp add: cs set_iter_ok_def)
  moreover have "\<forall>k. filter (\<lambda>c. score c = k) cs =
                 filter (\<lambda>c. score c = k) (rt_set_iter E cands)"
    by (simp add: cs sort_key_stable)
  ultimately show ?thesis using loop by blast
qed

theorem splits_distinct_sorted_witness:
  "set_iter_ok small_runtime \<and>
   simple_sandhi_splits small_runtime (ustr ''ahamasti'') 2 =
     Inr [(ustr ''aham'', ustr ''asti''), (ustr ''ah'', ustr ''amasti'')] \<and>
   distinct [(ustr ''aham'', ustr ''asti''), (ustr ''ah'', ustr ''amasti'')] \<and>
   sorted (map score [(ustr ''aham'', ustr ''asti''), (ustr ''ah'', ustr ''amasti'')])"
proof -
  have h: "simple_sandhi_splits small_runtime (ustr ''ahamasti'') 2 =
     Inr [(ustr ''aham'', ustr ''asti''), (ustr ''ah'', ustr ''amasti'')]"
    by code_simp
  from splits_distinct_sorted[OF set_iter_ok_small h] set_iter_ok_small h
  show ?thesis by blast
qed

text \<open>
  With a set that is iterated in another order than the order of insertion, the
  candidate of split index 3 comes before the candidate of split index 2, which has the
  same score.
\<close>

theorem splits_tie_order_counterexample:
  "set_iter_ok reversed_runtime \<and>
   simple_sandhi_splits reversed_runtime (ustr ''aaaaa'') 2 =
     Inr [(ustr ''aaa'', ustr ''aa''), (ustr ''aa'', ustr ''aaa'')] \<and>
   score (ustr ''aaa'', ustr ''aa'') = score (ustr ''aa'', ustr ''aaa'')"
proof -
  have "simple_sandhi_splits reversed_runtime (ustr ''aaaaa'') 2 =
     Inr [(ustr ''aaa'', ustr ''aa''), (ustr ''aa'', ustr ''aaa'')]"
    by code_simp
  moreover have "score (ustr ''aaa'', ustr ''aa'') = score (ustr ''aa'', ustr ''aaa'')"
    by code_simp
  ultimately show ?thesis using set_iter_ok_reversed by blast
qed

text \<open>
  Claim C9. For every token and every \<open>min_part_len \<ge> 1\<close>, a split index of the loop
  yields a candidate if and only if the right fragment starts with a vowel of
  \<open>VOWELS\<close> or the left fragment ends with the visarga; and the third heuristic is the
  one that fires exactly when the left fragment ends with the visarga and the right
  fragment does not start with a vowel.
\<close>

theorem candidate_condition:
  assumes "1 \<le> m" and "set_iter_ok E"
  shows "\<exists>cs. simple_sandhi_splits E t m = Inr cs \<and>
          (\<forall>i. m \<le> i \<and> i \<le> int (length (strip E t)) - m \<longrightarrow>
             (let L = slice_to (strip E t) i; R = slice_from (strip E t) i in
               ((L, R) \<in> set cs \<longleftrightarrow> starts_with_vowel R \<or> ends_with_visarga L) \<and>
               (fired L R = Inr (Some H3) \<longleftrightarrow> ends_with_visarga L \<and> \<not> starts_with_vowel R)))"
proof (cases "int (length (strip E t)) < m * 2")
  case True
  then have none: "\<not> (m \<le> i \<and> i \<le> int (length (strip E t)) - m)" for i by auto
  show ?thesis
  proof (intro exI conjI allI impI)
    show "simple_sandhi_splits E t m = Inr []" by (rule sandhi_short[OF True])
  qed (use none in blast)
next
  case False
  let ?tok = "strip E t"
  let ?cs = "sort_key score (rt_set_iter E (collected ?tok m))"
  have set: "set ?cs = set (collected ?tok m)"
    using assms(2) by (simp add: set_iter_ok_def)
  have "(let L = slice_to ?tok i; R = slice_from ?tok i in
               ((L, R) \<in> set ?cs \<longleftrightarrow> starts_with_vowel R \<or> ends_with_visarga L) \<and>
               (fired L R = Inr (Some H3) \<longleftrightarrow> ends_with_visarga L \<and> \<not> starts_with_vowel R))"
    if i: "m \<le> i \<and> i \<le> int (length ?tok) - m" for i
  proof -
    have b: "0 < i" "i < int (length ?tok)" using i assms(1) by auto
    have ne: "slice_to ?tok i \<noteq> []" "slice_from ?tok i \<noteq> []"
      using slices_inner[OF b] by auto
    have mem: "(slice_to ?tok i, slice_from ?tok i) \<in> set ?cs \<longleftrightarrow>
               starts_with_vowel (slice_from ?tok i) \<or> ends_with_visarga (slice_to ?tok i)"
      unfolding set using collected_distinct_idx[OF assms(1), of i ?tok] i
      by (simp add: split_at_def is_candidate_def)
    have h3: "fired (slice_to ?tok i) (slice_from ?tok i) = Inr (Some H3) \<longleftrightarrow>
               ends_with_visarga (slice_to ?tok i) \<and> \<not> starts_with_vowel (slice_from ?tok i)"
      using ne by (cases "slice_from ?tok i")
        (auto simp: fired_nonempty starts_with_vowel_def ends_with_visarga_def)
    show ?thesis using mem h3 by (simp add: Let_def)
  qed
  then show ?thesis using sandhi_long[OF assms(1) False] by blast
qed

theorem candidate_condition_witness:
  "(1::int) \<le> 2 \<and> set_iter_ok small_runtime \<and>
   2 \<le> (4::int) \<and> 4 \<le> int (length (strip small_runtime (ustr ''ahamasti''))) - 2 \<and>
   (\<exists>cs. simple_sandhi_splits small_runtime (ustr ''ahamasti'') 2 = Inr cs \<and>
      (let L = slice_to (strip small_runtime (ustr ''ahamasti'')) 4;
           R = slice_from (strip small_runtime (ustr ''ahamasti'')) 4 in
        ((L, R) \<in> set cs \<longleftrightarrow> starts_with_vowel R \<or> ends_with_visarga L) \<and>
        (fired L R = Inr (Some H3) \<longleftrightarrow> ends_with_visarga L \<and> \<not> starts_with_vowel R)))"
proof -
  have h1: "(1::int) \<le> 2" by simp
  have h2: "2 \<le> (4::int) \<and> 4 \<le> int (length (strip small_runtime (ustr ''ahamasti''))) - 2"
    by code_simp
  from candidate_condition[OF h1 set_iter_ok_small, of "ustr ''ahamasti''"] h1 h2 set_iter_ok_small
  show ?thesis by blast
qed


section \<open>Properties of the scanner\<close>

lemma matches_suffix: "s' \<in> set (matches r s) \<Longrightarrow> \<exists>p. s = p @ s'"
proof (induction r s arbitrary: s' rule: matches.induct)
  case (1 p s)
  then show ?case by (cases s) (auto simp: matches.simps(1) split: if_splits)
next
  case (2 r1 r2 s)
  from "2.prems" obtain x where x: "x \<in> set (matches r1 s)" and s': "s' \<in> set (matches r2 x)"
    by (auto simp: matches.simps(2))
  from "2.IH"(1)[OF x] obtain p where "s = p @ x" by blast
  moreover from "2.IH"(2)[OF x s'] obtain q where "x = q @ s'" by blast
  ultimately have "s = (p @ q) @ s'" by simp
  then show ?case by blast
next
  case (3 r s)
  show ?case
  proof (cases "s' = s")
    case True
    then show ?thesis by simp
  next
    case False
    from "3.prems" have "s' \<in> set (concat (map (\<lambda>s'. if length s' < length s
        then matches (Star r) s' else []) (matches r s)) @ [s])"
      by (subst (asm) matches.simps(3)) simp
    with False obtain x where x: "x \<in> set (matches r s)" and lt: "length x < length s"
      and s': "s' \<in> set (matches (Star r) x)"
      by (auto split: if_splits)
    from "3.IH"(1)[OF x] obtain p where "s = p @ x" by blast
    moreover from "3.IH"(2)[OF x lt s'] obtain q where "x = q @ s'" by blast
    ultimately have "s = (p @ q) @ s'" by simp
    then show ?thesis by blast
  qed
qed

lemma matches_length_le: "s' \<in> set (matches r s) \<Longrightarrow> length s' \<le> length s"
  using matches_suffix by fastforce

lemma matches_shorter: "\<not> nullable r \<Longrightarrow> s' \<in> set (matches r s) \<Longrightarrow> length s' < length s"
proof (induction r arbitrary: s s')
  case (Class p)
  then show ?case by (cases s) (auto simp: matches.simps(1) split: if_splits)
next
  case (Seq r1 r2)
  from Seq.prems(2) obtain x where x: "x \<in> set (matches r1 s)" and s': "s' \<in> set (matches r2 x)"
    by (auto simp: matches.simps(2))
  have le1: "length x \<le> length s" and le2: "length s' \<le> length x"
    using matches_length_le x s' by blast+
  from Seq.prems(1) consider "\<not> nullable r1" | "\<not> nullable r2" by auto
  then show ?case
  proof cases
    case 1
    from Seq.IH(1)[OF 1 x] le2 show ?thesis by simp
  next
    case 2
    from Seq.IH(2)[OF 2 s'] le1 show ?thesis by simp
  qed
next
  case (Star r)
  then show ?case by simp
qed

lemma re_match_Some:
  assumes "re_match r text i = Some e" and "i \<le> length text"
  shows "i \<le> e" and "e \<le> length text" and "\<not> nullable r \<Longrightarrow> i < e"
proof -
  from assms(1) obtain rest rs where m: "matches r (drop i text) = rest # rs"
    and e: "e = length text - length rest"
    by (auto simp: re_match_def split: list.splits)
  then have mem: "rest \<in> set (matches r (drop i text))" by simp
  from matches_length_le[OF mem] have le: "length rest \<le> length text - i" by simp
  show "i \<le> e" using le assms(2) e by simp
  show "e \<le> length text" using e by simp
  show "i < e" if "\<not> nullable r"
    using matches_shorter[OF that mem] assms(2) e by simp
qed

lemma nonnull_module: "nonnull (module_patterns E)"
  by (simp add: nonnull_def module_patterns_def NUMBER_RE_def WORD_RE_def PUNCT_RE_def Plus_def)

lemma substring_one: "i < length text \<Longrightarrow> substring text i (Suc i) = [text ! i]"
  by (simp add: substring_def take_Suc_conv_app_nth)

lemma scan_step_facts:
  assumes "nonnull P" and "i < length text" and "scan_step E P text i = (i', p)"
  shows "i < i'" and "i' \<le> length text" and "piece_text p = substring text i i'"
    and "\<And>c. p = Skipped c \<Longrightarrow> rt_isspace E c"
proof -
  have le: "i \<le> length text" using assms(2) by simp
  note nn = assms(1)[unfolded nonnull_def]
  have all: "i < i' \<and> i' \<le> length text \<and> piece_text p = substring text i i' \<and>
             (\<forall>c. p = Skipped c \<longrightarrow> rt_isspace E c)"
  proof (cases "rt_isspace E (text ! i)")
    case True
    then show ?thesis using assms(2,3) by (auto simp: scan_step_def substring_one)
  next
    case ws: False
    show ?thesis
    proof (cases "re_match (number_re P) text i")
      case (Some e)
      then show ?thesis using ws assms(3) re_match_Some[OF Some le] nn
        by (auto simp: scan_step_def)
    next
      case n1: None
      show ?thesis
      proof (cases "re_match (word_re P) text i")
        case (Some e)
        then show ?thesis using ws n1 assms(3) re_match_Some[OF Some le] nn
          by (auto simp: scan_step_def)
      next
        case n2: None
        show ?thesis
        proof (cases "re_match (punct_re P) text i")
          case (Some e)
          then show ?thesis using ws n1 n2 assms(3) re_match_Some[OF Some le] nn
            by (auto simp: scan_step_def)
        next
          case None
          then show ?thesis using ws n1 n2 assms(2,3)
            by (auto simp: scan_step_def substring_one)
        qed
      qed
    qed
  qed
  from all show "i < i'" "i' \<le> length text" "piece_text p = substring text i i'"
    "\<And>c. p = Skipped c \<Longrightarrow> rt_isspace E c" by auto
qed

lemma substring_drop:
  assumes "i \<le> i'" and "i' \<le> length text"
  shows "substring text i i' @ drop i' text = drop i text"
proof -
  have "drop i' text = drop (i' - i) (drop i text)" using assms by simp
  then show ?thesis unfolding substring_def by (metis append_take_drop_id)
qed

lemma scan_run:
  assumes "nonnull P" and "i \<le> length text"
  shows "\<exists>tr. scan_trace E P text i tr0 = Some (tr0 @ tr) \<and>
              scan_loop E P text i acc = Some (acc @ emitted tr) \<and>
              concat (map piece_text tr) = drop i text \<and>
              (\<forall>p\<in>set tr. \<forall>c. p = Skipped c \<longrightarrow> rt_isspace E c)"
  using assms(2)
proof (induction "length text - i" arbitrary: i tr0 acc rule: less_induct)
  case less
  show ?case
  proof (cases "i < length text")
    case False
    then have "i = length text" using less.prems by simp
    have "scan_trace E P text i tr0 = Some tr0"
      using False by (subst scan_trace.simps) simp
    moreover have "scan_loop E P text i acc = Some acc"
      using False by (subst scan_loop.simps) simp
    ultimately show ?thesis
      using \<open>i = length text\<close> by (intro exI[of _ "[]"]) simp
  next
    case True
    obtain i' p where st: "scan_step E P text i = (i', p)" by (cases "scan_step E P text i")
    note f = scan_step_facts[OF assms(1) True st]
    have "length text - i' < length text - i" using f(1,2) by simp
    from less.hyps[OF this f(2), of "tr0 @ [p]"
        "case p of Skipped c \<Rightarrow> acc | Emitted t \<Rightarrow> acc @ [t]"]
    obtain tr where tr: "scan_trace E P text i' (tr0 @ [p]) = Some ((tr0 @ [p]) @ tr)"
      "scan_loop E P text i' (case p of Skipped c \<Rightarrow> acc | Emitted t \<Rightarrow> acc @ [t]) =
         Some ((case p of Skipped c \<Rightarrow> acc | Emitted t \<Rightarrow> acc @ [t]) @ emitted tr)"
      "concat (map piece_text tr) = drop i' text"
      "\<forall>p\<in>set tr. \<forall>c. p = Skipped c \<longrightarrow> rt_isspace E c"
      by metis
    have t1: "scan_trace E P text i tr0 = Some (tr0 @ (p # tr))"
      using True st tr(1) by (subst scan_trace.simps) simp
    have t2: "scan_loop E P text i acc = Some (acc @ emitted (p # tr))"
      using True st tr(2) by (subst scan_loop.simps) (cases p; simp)
    have t3: "concat (map piece_text (p # tr)) = drop i text"
      using tr(3) f(3) substring_drop[of i i' "text"] f(1,2) by simp
    have t4: "\<forall>q\<in>set (p # tr). \<forall>c. q = Skipped c \<longrightarrow> rt_isspace E c"
      using tr(4) f(4) by auto
    show ?thesis
      by (rule exI[of _ "p # tr"]) (use t1 t2 t3 t4 in blast)
  qed
qed


lemma scan_loop_total:
  assumes "nonnull P"
  shows "\<exists>tr. scan_trace E P s 0 [] = Some tr \<and>
              scan_loop E P s 0 [] = Some (emitted tr) \<and>
              concat (map piece_text tr) = s \<and>
              (\<forall>p\<in>set tr. \<forall>c. p = Skipped c \<longrightarrow> rt_isspace E c)"
  using scan_run[OF assms, of 0 s E "[]" "[]"] by simp

text \<open>
  Claim C8. On every input the scanner terminates, and every pass through the body of
  its loop moves the cursor forward by at least one code point without leaving the
  text, whichever of the branches (whitespace, number, word, punctuation, fallback) is
  taken.
\<close>

theorem scanner_progress:
  "(\<exists>toks. basic_tokenize E text nf sd ia = Some toks) \<and>
   (\<forall>i < length (prepare E text nf sd ia).
      i < fst (scan_step E (module_patterns E) (prepare E text nf sd ia) i) \<and>
      fst (scan_step E (module_patterns E) (prepare E text nf sd ia) i)
        \<le> length (prepare E text nf sd ia))"
proof
  show "\<exists>toks. basic_tokenize E text nf sd ia = Some toks"
    using scan_loop_total[OF nonnull_module, where s = "prepare E text nf sd ia" and E = E]
    unfolding basic_tokenize_def by blast
next
  show "\<forall>i < length (prepare E text nf sd ia).
      i < fst (scan_step E (module_patterns E) (prepare E text nf sd ia) i) \<and>
      fst (scan_step E (module_patterns E) (prepare E text nf sd ia) i)
        \<le> length (prepare E text nf sd ia)"
  proof (intro allI impI)
    fix i assume i: "i < length (prepare E text nf sd ia)"
    obtain i' p where st: "scan_step E (module_patterns E) (prepare E text nf sd ia) i = (i', p)"
      by (cases "scan_step E (module_patterns E) (prepare E text nf sd ia) i")
    from scan_step_facts(1,2)[OF nonnull_module i st] st
    show "i < fst (scan_step E (module_patterns E) (prepare E text nf sd ia) i) \<and>
      fst (scan_step E (module_patterns E) (prepare E text nf sd ia) i)
        \<le> length (prepare E text nf sd ia)" by simp
  qed
qed

theorem scanner_progress_witness:
  "(\<exists>toks. basic_tokenize small_runtime (ustr ''ab 1'') True False False = Some toks) \<and>
   0 < length (prepare small_runtime (ustr ''ab 1'') True False False) \<and>
   0 < fst (scan_step small_runtime (module_patterns small_runtime)
              (prepare small_runtime (ustr ''ab 1'') True False False) 0) \<and>
   fst (scan_step small_runtime (module_patterns small_runtime)
          (prepare small_runtime (ustr ''ab 1'') True False False) 0)
     \<le> length (prepare small_runtime (ustr ''ab 1'') True False False)"
proof -
  have h: "0 < length (prepare small_runtime (ustr ''ab 1'') True False False)"
    by code_simp
  from scanner_progress[of small_runtime "ustr ''ab 1''" True False False] h
  show ?thesis by blast
qed

text \<open>
  Claim C4. For every input, the pieces that the scanner consumes (the tokens it emits
  and the whitespace code points it skips between them), concatenated in order, are
  exactly the text it was run on, that is the input after the optional normalization
  steps; the tokens returned are the emitted pieces, in order, and every skipped piece
  is whitespace.
\<close>

theorem tokenization_lossless:
  "\<exists>tr. scan_trace E (module_patterns E) (prepare E text nf sd ia) 0 [] = Some tr \<and>
        basic_tokenize E text nf sd ia = Some (emitted tr) \<and>
        concat (map piece_text tr) = prepare E text nf sd ia \<and>
        (\<forall>p\<in>set tr. \<forall>c. p = Skipped c \<longrightarrow> rt_isspace E c)"
  using scan_loop_total[OF nonnull_module, where s = "prepare E text nf sd ia" and E = E]
  unfolding basic_tokenize_def by blast

theorem tokenization_lossless_witness:
  "scan_trace small_runtime (module_patterns small_runtime)
     (prepare small_runtime (ustr ''a b'') True False False) 0 [] =
     Some [Emitted (ustr ''a''), Skipped 32, Emitted (ustr ''b'')] \<and>
   basic_tokenize small_runtime (ustr ''a b'') True False False = Some [ustr ''a'', ustr ''b''] \<and>
   concat (map piece_text [Emitted (ustr ''a''), Skipped 32, Emitted (ustr ''b'')]) =
     prepare small_runtime (ustr ''a b'') True False False \<and>
   rt_isspace small_runtime 32"
proof -
  have tr: "scan_trace small_runtime (module_patterns small_runtime)
     (prepare small_runtime (ustr ''a b'') True False False) 0 [] =
     Some [Emitted (ustr ''a''), Skipped 32, Emitted (ustr ''b'')]"
    by code_simp
  from tokenization_lossless[of small_runtime "ustr ''a b''" True False False] tr
  have "basic_tokenize small_runtime (ustr ''a b'') True False False =
          Some (emitted [Emitted (ustr ''a''), Skipped 32, Emitted (ustr ''b'')])"
    and "concat (map piece_text [Emitted (ustr ''a''), Skipped 32, Emitted (ustr ''b'')]) =
          prepare small_runtime (ustr ''a b'') True False False"
    and "\<forall>p\<in>set [Emitted (ustr ''a''), Skipped 32, Emitted (ustr ''b'')].
           \<forall>c. p = Skipped c \<longrightarrow> rt_isspace small_runtime c"
    by auto
  then show ?thesis using tr by simp
qed

section \<open>Properties of the pipeline\<close>

lemma expand_loop_eq: "expand_loop E toks acc = Inr (acc @ concat (map (expand_token E) toks))"
proof (induction toks arbitrary: acc)
  case Nil
  then show ?case by simp
next
  case (Cons t toks)
  obtain cs where cs: "simple_sandhi_splits E t 2 = Inr cs"
    using sandhi_total[of 2 E t] by auto
  show ?case
  proof (cases "re_fullmatch WORD_RE t")
    case False
    then show ?thesis by (simp add: Cons.IH expand_token_def)
  next
    case True
    show ?thesis
    proof (cases cs)
      case Nil
      then show ?thesis using True cs by (simp add: Cons.IH expand_token_def candidates_of_def)
    next
      case (Cons c rest)
      obtain l r where c: "c = (l, r)" by (cases c)
      show ?thesis using True cs Cons c
        by (simp add: Cons.IH expand_token_def candidates_of_def)
    qed
  qed
qed

text \<open>
  Claim C6. With sandhi splitting on, the pipeline returns the scanned tokens in their
  order, each token that fully matches the word pattern and has at least one candidate
  replaced in place by the two fragments of its first candidate, and every other token
  (a word without candidates, a number, punctuation, a fallback character) unchanged.
\<close>

theorem pipeline_expands_in_place:
  "\<exists>toks. basic_tokenize E text nf sd ia = Some toks \<and>
     pipeline_tokenize E text nf sd ia True = Some (Inr (concat (map (expand_token E) toks)))"
proof -
  obtain toks where "basic_tokenize E text nf sd ia = Some toks"
    using scan_loop_total[OF nonnull_module, where s = "prepare E text nf sd ia" and E = E]
    unfolding basic_tokenize_def by blast
  then show ?thesis by (simp add: pipeline_tokenize_def expand_loop_eq)
qed

theorem pipeline_expands_in_place_witness:
  "basic_tokenize small_runtime (ustr ''ahamasti 12, ab'') True False False =
     Some [ustr ''ahamasti'', ustr ''12'', ustr '','', ustr ''ab''] \<and>
   pipeline_tokenize small_runtime (ustr ''ahamasti 12, ab'') True False False True =
     Some (Inr [ustr ''aham'', ustr ''asti'', ustr ''12'', ustr '','', ustr ''ab''])"
proof -
  have a: "basic_tokenize small_runtime (ustr ''ahamasti 12, ab'') True False False =
     Some [ustr ''ahamasti'', ustr ''12'', ustr '','', ustr ''ab'']"
    by code_simp
  have b: "concat (map (expand_token small_runtime)
             [ustr ''ahamasti'', ustr ''12'', ustr '','', ustr ''ab'']) =
           [ustr ''aham'', ustr ''asti'', ustr ''12'', ustr '','', ustr ''ab'']"
    by code_simp
  from pipeline_expands_in_place[of small_runtime "ustr ''ahamasti 12, ab''" True False False] a b
  show ?thesis by auto
qed

section \<open>The two variants of the scanner\<close>



















lemma prepare_plain: "prepare_venv E text False False = prepare E text True False False"
  by (simp add: prepare_venv_def prepare_def normalize_text_venv_def normalize_text_def)




section \<open>Properties of diacritic stripping\<close>

lemma concat_singletons: "concat (map (\<lambda>ch. [ch]) xs) = xs"
  by (induction xs) simp_all

lemma strip_diacritics_venv_eq:
  "strip_diacritics_venv E s = remove_marks E (rt_normalize E NFKD s)"
  by (simp add: strip_diacritics_venv_def remove_marks_def combining_mark_def Let_def
      concat_singletons)

lemma strip_diacritics_eq: "strip_diacritics E s = strip_reference NFKD E s"
  by (simp add: strip_diacritics_def strip_reference_def remove_marks_def combining_mark_def
      Let_def concat_singletons)




text \<open>
  Claim C10. \<open>strip_diacritics\<close>, in both modules, decomposes with NFKD and not with
  the canonical decomposition, so it is not the identity on text without combining
  marks: on every runtime whose tables know the compatibility decomposition of the
  ligature U+FB01 into \<open>f\<close> and \<open>i\<close> (as the Unicode tables do), the one-character
  string U+FB01 has no combining mark and both functions return \<open>fi\<close> for it.
\<close>

theorem compatibility_decomposition_changes_text:
  assumes "rt_normalize E NFKD [0xFB01] = [102, 105]"
    and "rt_normalize E NFC [102, 105] = [102, 105]"
    and "rt_combining E 102 = 0" and "rt_combining E 105 = 0" and "rt_combining E 0xFB01 = 0"
  shows "strip_diacritics E s = rt_normalize E NFC (remove_marks E (rt_normalize E NFKD s)) \<and>
         strip_diacritics_venv E s = remove_marks E (rt_normalize E NFKD s) \<and>
         filter (combining_mark E) [0xFB01] = [] \<and>
         strip_diacritics E [0xFB01] = [102, 105] \<and>
         strip_diacritics_venv E [0xFB01] = [102, 105] \<and>
         strip_diacritics E [0xFB01] \<noteq> [0xFB01] \<and>
         strip_diacritics_venv E [0xFB01] \<noteq> [0xFB01]"
proof -
  have a: "strip_diacritics E s = rt_normalize E NFC (remove_marks E (rt_normalize E NFKD s))"
    by (simp add: strip_diacritics_eq strip_reference_def)
  have b: "strip_diacritics_venv E s = remove_marks E (rt_normalize E NFKD s)"
    by (rule strip_diacritics_venv_eq)
  have c: "filter (combining_mark E) [0xFB01] = []"
    using assms(5) by (simp add: combining_mark_def)
  have v: "strip_diacritics_venv E [0xFB01] = [102, 105]"
    using assms(1,3,4) by (simp add: strip_diacritics_venv_def Let_def)
  have m: "strip_diacritics E [0xFB01] = [102, 105]"
    using assms(1-4) by (simp add: strip_diacritics_def Let_def)
  show ?thesis using a b c v m by simp
qed

theorem compatibility_decomposition_changes_text_witness:
  "rt_normalize small_runtime NFKD [0xFB01] = [102, 105] \<and>
   rt_normalize small_runtime NFC [102, 105] = [102, 105] \<and>
   rt_combining small_runtime 102 = 0 \<and> rt_combining small_runtime 105 = 0 \<and>
   rt_combining small_runtime 0xFB01 = 0 \<and>
   filter (combining_mark small_runtime) [0xFB01] = [] \<and>
   strip_diacritics small_runtime [0xFB01] = [102, 105] \<and>
   strip_diacritics_venv small_runtime [0xFB01] = [102, 105]"
proof -
  have h1: "rt_normalize small_runtime NFKD [0xFB01] = [102, 105]" by code_simp
  have h2: "rt_normalize small_runtime NFC [102, 105] = [102, 105]" by code_simp
  have h3: "rt_combining small_runtime 102 = 0" by code_simp
  have h4: "rt_combining small_runtime 105 = 0" by code_simp
  have h5: "rt_combining small_runtime 0xFB01 = 0" by code_simp
  from compatibility_decomposition_changes_text[OF h1 h2 h3 h4 h5, of "[]"] h1 h2 h3 h4 h5
  show ?thesis by blast
qed

end
